theory Spec2Isabelle
  imports Main "HOL-Library.Word"
begin

unbundle bit_operations_syntax

section \<open>Data model\<close>

text \<open>
  The program is \<^verbatim>\<open>main.py\<close>: LSB steganography in the blue channel of an RGB image,
  with an optional repeating-key XOR cipher and the stop marker \<^verbatim>\<open>$STOP$\<close>.

  \<^item> A Python \<^verbatim>\<open>bytes\<close> value is a list of 8-bit words.
  \<^item> A Python \<^verbatim>\<open>str\<close> is a list of code points. A \<^verbatim>\<open>str\<close> may hold the surrogate code
    points \<open>0xD800 .. 0xDFFF\<close> (they arrive from the command line when an argument is not
    valid UTF-8), and \<^verbatim>\<open>str.encode('utf-8')\<close> raises on them. No \<^verbatim>\<open>str\<close> holds a value from
    \<open>0x110000\<close> on; the encoder of the model rejects those as well, so that whatever it
    encodes is a string that Python has.
  \<^item> The bit lists of the program are Python lists of \<^verbatim>\<open>int\<close>.
  \<^item> An exception that leaves a function is the \<open>Inl\<close> of a sum.
\<close>

type_synonym byte = "8 word"
type_synonym pystr = "nat list"

datatype error = ValueError | UnicodeEncodeError | UnicodeDecodeError

section \<open>The UTF-8 codec of the runtime\<close>

text \<open>
  \<^verbatim>\<open>str.encode('utf-8')\<close> and \<^verbatim>\<open>bytes.decode('utf-8')\<close>, both with the default strict error
  handling. The encoder writes one to four bytes per code point and raises
  \<^verbatim>\<open>UnicodeEncodeError\<close> on a surrogate. The decoder accepts the well-formed sequences only:
  a continuation byte is \<open>0x80 .. 0xBF\<close>, and an overlong form, a surrogate or a value from
  \<open>0x110000\<close> on raises \<^verbatim>\<open>UnicodeDecodeError\<close>, as does a truncated sequence.
\<close>

definition encode_cp :: "nat \<Rightarrow> error + byte list" where
  "encode_cp c =
     (if c < 0x80 then Inr [of_nat c]
      else if c < 0x800 then Inr [of_nat (0xC0 + c div 64), of_nat (0x80 + c mod 64)]
      else if c < 0x10000 then
        (if 0xD800 \<le> c \<and> c \<le> 0xDFFF then Inl UnicodeEncodeError
         else Inr [of_nat (0xE0 + c div 4096), of_nat (0x80 + (c div 64) mod 64),
                   of_nat (0x80 + c mod 64)])
      else if c < 0x110000 then
        Inr [of_nat (0xF0 + c div 262144), of_nat (0x80 + (c div 4096) mod 64),
             of_nat (0x80 + (c div 64) mod 64), of_nat (0x80 + c mod 64)]
      else Inl UnicodeEncodeError)"

fun utf8_encode :: "pystr \<Rightarrow> error + byte list" where
  "utf8_encode [] = Inr []"
| "utf8_encode (c # cs) =
     (case encode_cp c of
        Inl e \<Rightarrow> Inl e
      | Inr bs \<Rightarrow> (case utf8_encode cs of Inl e \<Rightarrow> Inl e | Inr r \<Rightarrow> Inr (bs @ r)))"

definition is_cont :: "byte \<Rightarrow> bool" where
  "is_cont b = (0x80 \<le> unat b \<and> unat b \<le> 0xBF)"

definition cont_val :: "byte \<Rightarrow> nat" where
  "cont_val b = unat b mod 64"

text \<open>
  \<open>decode_one b0 bs\<close> decodes the sequence that the lead byte \<open>b0\<close> starts, reading its
  continuation bytes from \<open>bs\<close>; it gives the code point and how many bytes of \<open>bs\<close> it used.
\<close>

definition decode_one :: "byte \<Rightarrow> byte list \<Rightarrow> (nat \<times> nat) option" where
  "decode_one b0 bs =
     (let n0 = unat b0 in
      if n0 < 0x80 then Some (n0, 0)
      else if n0 < 0xC0 then None
      else if n0 < 0xE0 then
        (case bs of
           b1 # _ \<Rightarrow>
             (let cp = (n0 - 0xC0) * 64 + cont_val b1 in
              if is_cont b1 \<and> 0x80 \<le> cp then Some (cp, 1) else None)
         | _ \<Rightarrow> None)
      else if n0 < 0xF0 then
        (case bs of
           b1 # b2 # _ \<Rightarrow>
             (let cp = (n0 - 0xE0) * 4096 + cont_val b1 * 64 + cont_val b2 in
              if is_cont b1 \<and> is_cont b2 \<and> 0x800 \<le> cp \<and> \<not> (0xD800 \<le> cp \<and> cp \<le> 0xDFFF)
              then Some (cp, 2) else None)
         | _ \<Rightarrow> None)
      else if n0 < 0xF8 then
        (case bs of
           b1 # b2 # b3 # _ \<Rightarrow>
             (let cp = (n0 - 0xF0) * 262144 + cont_val b1 * 4096 + cont_val b2 * 64
                       + cont_val b3 in
              if is_cont b1 \<and> is_cont b2 \<and> is_cont b3 \<and> 0x10000 \<le> cp \<and> cp < 0x110000
              then Some (cp, 3) else None)
         | _ \<Rightarrow> None)
      else None)"

fun utf8_decode :: "byte list \<Rightarrow> error + pystr" where
  "utf8_decode [] = Inr []"
| "utf8_decode (b0 # bs) =
     (case decode_one b0 bs of
        None \<Rightarrow> Inl UnicodeDecodeError
      | Some (cp, n) \<Rightarrow>
          (case utf8_decode (drop n bs) of Inl e \<Rightarrow> Inl e | Inr cs \<Rightarrow> Inr (cp # cs)))"

section \<open>The XOR cipher\<close>

text \<open>
  \<^verbatim>\<open>zip(data, cycle(key))\<close> pairs the byte at position \<open>i\<close> with the key byte at
  \<open>i mod len(key)\<close>; over an empty key \<^verbatim>\<open>cycle\<close> yields nothing and the zip is empty.
\<close>

definition zip_cycle :: "'a list \<Rightarrow> 'b list \<Rightarrow> ('a \<times> 'b) list" where
  "zip_cycle xs ks =
     (if ks = [] then []
      else map (\<lambda>i. (xs ! i, ks ! (i mod length ks))) [0..<length xs])"

definition xor_cipher :: "byte list \<Rightarrow> pystr \<Rightarrow> error + byte list" where
  "xor_cipher data password =
     (if password = [] then Inr data
      else (case utf8_encode password of
              Inl e \<Rightarrow> Inl e
            | Inr key \<Rightarrow> Inr (map (\<lambda>(a, b). a XOR b) (zip_cycle data key))))"

section \<open>The bit codec\<close>

text \<open>
  \<^verbatim>\<open>format(byte, '08b')\<close> is the eight binary digits of the byte, the most significant
  first; \<^verbatim>\<open>int(b)\<close> reads one of these digits.
\<close>

definition format_08b :: "byte \<Rightarrow> string" where
  "format_08b byte = map (\<lambda>i. if bit byte i then CHR ''1'' else CHR ''0'') [7, 6, 5, 4, 3, 2, 1, 0]"

definition int_of_digit :: "char \<Rightarrow> int" where
  "int_of_digit c = (if c = CHR ''1'' then 1 else 0)"

fun bytes_to_bits :: "byte list \<Rightarrow> int list" where
  "bytes_to_bits [] = []"
| "bytes_to_bits (byte # data) = map int_of_digit (format_08b byte) @ bytes_to_bits data"

text \<open>
  \<^verbatim>\<open>int(''.join(map(str, byte_chunk)), 2)\<close>: every element of the chunk is printed in
  decimal, the texts are joined, and the result is read in base 2. Over the characters
  that a printed integer has, the text is accepted when it is a nonempty run of \<open>0\<close> and
  \<open>1\<close> after an optional leading minus sign; anything else raises \<^verbatim>\<open>ValueError\<close>.
  \<^verbatim>\<open>bytes(byte_values)\<close> raises \<^verbatim>\<open>ValueError\<close> on a value outside \<open>0 .. 255\<close>.
\<close>

definition digit_char :: "nat \<Rightarrow> char" where
  "digit_char d = ''0123456789'' ! d"

fun str_nat :: "nat \<Rightarrow> string" where
  "str_nat n = (if n < 10 then [digit_char n] else str_nat (n div 10) @ [digit_char (n mod 10)])"

declare str_nat.simps [simp del]

definition str_int :: "int \<Rightarrow> string" where
  "str_int i = (if i < 0 then CHR ''-'' # str_nat (nat (- i)) else str_nat (nat i))"

definition is_bin_digit :: "char \<Rightarrow> bool" where
  "is_bin_digit c = (c = CHR ''0'' \<or> c = CHR ''1'')"

definition bin_value :: "string \<Rightarrow> int" where
  "bin_value s = foldl (\<lambda>acc c. 2 * acc + int_of_digit c) 0 s"

definition int_base2 :: "string \<Rightarrow> error + int" where
  "int_base2 s =
     (case s of
        [] \<Rightarrow> Inl ValueError
      | c # t \<Rightarrow>
          if c = CHR ''-'' then
            (if t \<noteq> [] \<and> list_all is_bin_digit t then Inr (- bin_value t) else Inl ValueError)
          else if list_all is_bin_digit s then Inr (bin_value s)
          else Inl ValueError)"

definition bytes_of_ints :: "int list \<Rightarrow> error + byte list" where
  "bytes_of_ints vs =
     (if list_all (\<lambda>v. 0 \<le> v \<and> v < 256) vs then Inr (map word_of_int vs) else Inl ValueError)"

text \<open>
  The loop of \<^verbatim>\<open>bits_to_bytes\<close> takes chunks of eight and stops at a shorter one, which
  can only be the last.
\<close>

fun byte_values :: "int list \<Rightarrow> error + int list" where
  "byte_values bits =
     (if length bits < 8 then Inr []
      else (case int_base2 (concat (map str_int (take 8 bits))) of
              Inl e \<Rightarrow> Inl e
            | Inr byte_val \<Rightarrow>
                (case byte_values (drop 8 bits) of
                   Inl e \<Rightarrow> Inl e
                 | Inr vs \<Rightarrow> Inr (byte_val # vs))))"

declare byte_values.simps [simp del]

definition bits_to_bytes :: "int list \<Rightarrow> error + byte list" where
  "bits_to_bytes bits =
     (case byte_values bits of Inl e \<Rightarrow> Inl e | Inr vs \<Rightarrow> bytes_of_ints vs)"

section \<open>Images\<close>

text \<open>
  \<^verbatim>\<open>Image.open(path).convert('RGB')\<close> gives a grid of \<open>width \<times> height\<close> pixels, each a
  triple of 8-bit channels, read and written through \<^verbatim>\<open>pixels[x, y]\<close>. The loops of the
  program index it inside \<open>range(width) \<times> range(height)\<close> only, so the access object is a
  function of the position.

  The functions of the program are modelled between the open and the save: they take
  the grid that \<^verbatim>\<open>Image.open(input_path).convert('RGB')\<close> gives, and what they return is the
  grid that \<^verbatim>\<open>img.save(output_path)\<close> is given. What a later open of the written file
  gives is the subject of the section on the file boundary.
\<close>

type_synonym rgb = "byte \<times> byte \<times> byte"
type_synonym pixel_access = "nat \<times> nat \<Rightarrow> rgb"

record image =
  width :: nat
  height :: nat
  pixels :: pixel_access

definition stop_marker :: "byte list" where
  "stop_marker = [0x24, 0x53, 0x54, 0x4F, 0x50, 0x24]"

section \<open>\<^verbatim>\<open>stego_hide\<close>\<close>

text \<open>
  The loop nest of \<^verbatim>\<open>stego_hide\<close>, with its state \<open>(px, idx)\<close>: the pixel access object
  and the bit index. The inner loop leaves at \<^verbatim>\<open>break\<close> once \<open>idx\<close> has reached
  \<open>len(bits)\<close>; the outer loop goes on to the next row, where the inner loop leaves at
  once. \<^verbatim>\<open>(b & ~1) | bits[idx]\<close> is computed on
  Python integers; \<open>bits[idx]\<close> is 0 or 1 here (it comes from \<^verbatim>\<open>bytes_to_bits\<close>), so the
  result is a channel value and nothing is lost in the 8-bit word.
\<close>

fun hide_row :: "int list \<Rightarrow> nat \<Rightarrow> nat list \<Rightarrow> pixel_access \<times> nat \<Rightarrow> pixel_access \<times> nat" where
  "hide_row bits y [] (px, idx) = (px, idx)"
| "hide_row bits y (x # xs) (px, idx) =
     (if idx < length bits then
        (case px (x, y) of
           (r, g, b) \<Rightarrow>
             (let new_b = (b AND NOT 1) OR word_of_int (bits ! idx)
              in hide_row bits y xs (px((x, y) := (r, g, new_b)), idx + 1)))
      else (px, idx))"

fun hide_rows :: "int list \<Rightarrow> nat \<Rightarrow> nat list \<Rightarrow> pixel_access \<times> nat \<Rightarrow> pixel_access \<times> nat" where
  "hide_rows bits w [] st = st"
| "hide_rows bits w (y # ys) st = hide_rows bits w ys (hide_row bits y [0..<w] st)"

text \<open>The whole loop nest, from \<open>idx = 0\<close>, on the pixels of an image.\<close>

definition embed :: "image \<Rightarrow> int list \<Rightarrow> image" where
  "embed img bits =
     img\<lparr>pixels := fst (hide_rows bits (width img) [0..<height img] (pixels img, 0))\<rparr>"

text \<open>
  \<open>stego_hide input secret_text password\<close>, where \<open>input\<close> is the image that
  \<^verbatim>\<open>Image.open(input_path)\<close> loads. \<open>Inr img\<close> is the grid that \<^verbatim>\<open>img.save(output_path)\<close>
  is called on. \<open>Inl (e, buf)\<close> is the exception \<open>e\<close> leaving the function before the save, so that
  nothing is written; \<open>buf\<close> is the pixel buffer in memory at that moment, \<open>None\<close> when the
  image has not been opened yet.
\<close>

definition stego_hide :: "image \<Rightarrow> pystr \<Rightarrow> pystr \<Rightarrow> (error \<times> image option) + image" where
  "stego_hide input secret_text password =
     (case utf8_encode secret_text of
        Inl e \<Rightarrow> Inl (e, None)
      | Inr data_bytes \<Rightarrow>
          (case (if password \<noteq> [] then xor_cipher data_bytes password else Inr data_bytes) of
             Inl e \<Rightarrow> Inl (e, None)
           | Inr data_bytes \<Rightarrow>
               (let full_payload = data_bytes @ stop_marker;
                    bits = bytes_to_bits full_payload;
                    img = input
                in if length bits > width img * height img then Inl (ValueError, Some img)
                   else Inr (embed img bits))))"

section \<open>\<^verbatim>\<open>stego_extract\<close>\<close>

definition max_bytes :: nat where
  "max_bytes = 4096"

definition max_bits :: nat where
  "max_bits = max_bytes * 8"

text \<open>The loop nest of \<^verbatim>\<open>stego_extract\<close>, with its state \<open>(extracted_bits, bits_count)\<close>.\<close>

fun extract_row :: "pixel_access \<Rightarrow> nat \<Rightarrow> nat list \<Rightarrow> int list \<times> nat \<Rightarrow> int list \<times> nat" where
  "extract_row px y [] (extracted_bits, bits_count) = (extracted_bits, bits_count)"
| "extract_row px y (x # xs) (extracted_bits, bits_count) =
     (if bits_count \<ge> max_bits then (extracted_bits, bits_count)
      else (case px (x, y) of
              (r, g, b) \<Rightarrow>
                extract_row px y xs (extracted_bits @ [uint (b AND 1)], bits_count + 1)))"

fun extract_rows :: "pixel_access \<Rightarrow> nat \<Rightarrow> nat list \<Rightarrow> int list \<times> nat \<Rightarrow> int list \<times> nat" where
  "extract_rows px w [] st = st"
| "extract_rows px w (y # ys) (extracted_bits, bits_count) =
     (if bits_count \<ge> max_bits then (extracted_bits, bits_count)
      else extract_rows px w ys (extract_row px y [0..<w] (extracted_bits, bits_count)))"

text \<open>The whole loop nest: the list \<^verbatim>\<open>extracted_bits\<close> that \<^verbatim>\<open>bits_to_bytes\<close> is given.\<close>

definition recover :: "image \<Rightarrow> int list" where
  "recover img = fst (extract_rows (pixels img) (width img) [0..<height img] ([], 0))"

text \<open>
  \<^verbatim>\<open>stop_marker in raw_data\<close> and \<^verbatim>\<open>raw_data.split(stop_marker)[0]\<close>: \<open>find_bytes\<close> is the
  position of the first occurrence, and the first piece of the split is what precedes it.
\<close>

fun find_bytes :: "byte list \<Rightarrow> byte list \<Rightarrow> nat option" where
  "find_bytes [] sub = (if sub = [] then Some 0 else None)"
| "find_bytes (b # bs) sub =
     (if take (length sub) (b # bs) = sub then Some 0
      else map_option Suc (find_bytes bs sub))"

definition bytes_in :: "byte list \<Rightarrow> byte list \<Rightarrow> bool" where
  "bytes_in sub raw = (find_bytes raw sub \<noteq> None)"

definition split_first :: "byte list \<Rightarrow> byte list \<Rightarrow> byte list" where
  "split_first raw sub = (case find_bytes raw sub of None \<Rightarrow> raw | Some i \<Rightarrow> take i raw)"

text \<open>
  The two messages that \<^verbatim>\<open>stego_extract\<close> returns in place of a text, as code points:
  \<open>msg_not_found\<close> when the stop marker is absent, \<open>msg_wrong_password\<close> when the bytes
  are not UTF-8.
\<close>

definition msg_not_found :: pystr where
  "msg_not_found =
     [1053, 1077, 32, 1085, 1072, 1081, 1076, 1077, 1085, 1086, 32, 1089, 1082, 1088, 1099,
      1090, 1099, 1093, 32, 1076, 1072, 1085, 1085, 1099, 1093, 46]"

definition msg_wrong_password :: pystr where
  "msg_wrong_password =
     [1054, 1096, 1080, 1073, 1082, 1072, 58, 32, 1053, 1077, 1087, 1088, 1072, 1074, 1080,
      1083, 1100, 1085, 1099, 1081, 32, 1087, 1072, 1088, 1086, 1083, 1100, 32, 1080, 1083,
      1080, 32, 1087, 1086, 1074, 1088, 1077, 1078, 1076, 1105, 1085, 1085, 1099, 1077, 32,
      1076, 1072, 1085, 1085, 1099, 1077, 46]"

definition stego_extract :: "image \<Rightarrow> pystr \<Rightarrow> error + pystr" where
  "stego_extract img password =
     (case bits_to_bytes (recover img) of
        Inl e \<Rightarrow> Inl e
      | Inr raw_data \<Rightarrow>
          if bytes_in stop_marker raw_data then
            (let secret_bytes = split_first raw_data stop_marker
             in case (if password \<noteq> [] then xor_cipher secret_bytes password
                      else Inr secret_bytes) of
                  Inl e \<Rightarrow> Inl e
                | Inr secret_bytes \<Rightarrow>
                    (case utf8_decode secret_bytes of
                       Inr text \<Rightarrow> Inr text
                     | Inl UnicodeDecodeError \<Rightarrow> Inr msg_wrong_password
                     | Inl e \<Rightarrow> Inl e))
          else Inr msg_not_found)"

section \<open>\<^verbatim>\<open>clean_lsb\<close>\<close>




section \<open>The file boundary\<close>

text \<open>
  \<^verbatim>\<open>img.save(output_path)\<close> writes the grid in the format that the extension of
  \<open>output_path\<close> names, whatever it is: the program checks no extension. A later
  \<^verbatim>\<open>Image.open(output_path).convert('RGB')\<close> decodes the file. The imaging library is not
  part of the program, so the round trip is a parameter: \<open>reopen output_path img\<close> is the
  grid that opening \<open>output_path\<close> gives after \<open>img\<close> was saved there. The output is
  lossless when every grid comes back as it was saved, as from a \<^verbatim>\<open>.png\<close> file; from a
  \<^verbatim>\<open>.jpg\<close> or \<^verbatim>\<open>.jpeg\<close> file it does not.
\<close>

type_synonym round_trip = "string \<Rightarrow> image \<Rightarrow> image"

definition lossless :: "round_trip \<Rightarrow> string \<Rightarrow> bool" where
  "lossless reopen output_path = (\<forall>img. reopen output_path img = img)"

text \<open>The round trip of a PNG file.\<close>

definition png_round_trip :: round_trip where
  "png_round_trip output_path img = img"

section \<open>Notions used in the statements\<close>

definition bits01 :: "int list \<Rightarrow> bool" where
  "bits01 bits = list_all (\<lambda>b. b = 0 \<or> b = 1) bits"

text \<open>The pixel at row-major index \<open>i\<close>, and its three channels.\<close>

definition pixel_at :: "image \<Rightarrow> nat \<Rightarrow> rgb" where
  "pixel_at img i = pixels img (i mod width img, i div width img)"

definition red :: "rgb \<Rightarrow> byte" where
  "red p = fst p"

definition green :: "rgb \<Rightarrow> byte" where
  "green p = fst (snd p)"

definition blue :: "rgb \<Rightarrow> byte" where
  "blue p = snd (snd p)"

text \<open>
  What one step of each loop does to a pixel: \<open>put_bit\<close> is the assignment of
  \<^verbatim>\<open>stego_hide\<close>, \<open>clear_bit0\<close> the assignment of \<^verbatim>\<open>clean_lsb\<close>, and \<open>blue_lsb\<close> the
  value that \<^verbatim>\<open>stego_extract\<close> appends.
\<close>

definition put_bit :: "rgb \<Rightarrow> int \<Rightarrow> rgb" where
  "put_bit p v = (case p of (r, g, b) \<Rightarrow> (r, g, (b AND NOT 1) OR word_of_int v))"


definition blue_lsb :: "rgb \<Rightarrow> int" where
  "blue_lsb p = uint (blue p AND 1)"

section \<open>Inputs of the examples\<close>

text \<open>
  The scenario of the test suite: the 100 by 100 red image, the secret text of
  \<^verbatim>\<open>test_steganography_positive\<close> (sixteen Cyrillic code points and a space) and the
  password \<^verbatim>\<open>123\<close>; \<open>test_bytes\<close> is the UTF-8 form of the text and \<open>test_ciphered\<close>
  what the cipher makes of it.
\<close>

definition red_image :: image where
  "red_image = \<lparr>width = 100, height = 100, pixels = (\<lambda>_. (255, 0, 0))\<rparr>"

definition test_secret :: pystr where
  "test_secret =
     [1057, 1077, 1082, 1088, 1077, 1090, 1085, 1099, 1081, 32, 1087, 1088, 1080, 1082, 1086,
      1083]"

definition test_password :: pystr where
  "test_password = [0x31, 0x32, 0x33]"

definition test_bytes :: "byte list" where
  "test_bytes =
     [208, 161, 208, 181, 208, 186, 209, 128, 208, 181, 209, 130, 208, 189, 209, 139, 208,
      185, 32, 208, 191, 209, 128, 208, 184, 208, 186, 208, 190, 208, 187]"

definition test_ciphered :: "byte list" where
  "test_ciphered =
     [225, 147, 227, 132, 226, 137, 224, 178, 227, 132, 227, 177, 225, 143, 226, 186, 226,
      138, 17, 226, 140, 224, 178, 227, 137, 226, 137, 225, 140, 227, 138]"

text \<open>
  Further inputs: an 8 by 7 image, whose 56 pixels hold one byte and the stop marker
  exactly; a 200 by 200 image; the text \<^verbatim>\<open>$STOP$\<close>; and a text of 4091 letters \<^verbatim>\<open>A\<close>, which
  with the stop marker is one byte longer than what \<^verbatim>\<open>stego_extract\<close> reads.
\<close>

definition small_image :: image where
  "small_image = \<lparr>width = 8, height = 7, pixels = (\<lambda>_. (255, 0, 0))\<rparr>"

definition large_image :: image where
  "large_image = \<lparr>width = 200, height = 200, pixels = (\<lambda>_. (0, 0, 0))\<rparr>"

definition stop_text :: pystr where
  "stop_text = [0x24, 0x53, 0x54, 0x4F, 0x50, 0x24]"

definition long_text :: pystr where
  "long_text = replicate 4091 0x41"

section \<open>The bit codec: lemmas\<close>

lemma str_int_bit:
  "b = 0 \<or> b = 1 \<Longrightarrow> str_int b = [if b = 1 then CHR ''1'' else CHR ''0'']"
  by (auto simp: str_int_def str_nat.simps [of 0] str_nat.simps [of 1]
      str_nat.simps [of "Suc 0"] digit_char_def)

lemma bin_value_snoc: "bin_value (s @ [c]) = 2 * bin_value s + int_of_digit c"
  by (simp add: bin_value_def)

lemma bin_value_horner:
  "bin_value (map (\<lambda>b. if b then CHR ''1'' else CHR ''0'') bs) = horner_sum of_bool 2 (rev bs)"
  by (induction bs rule: rev_induct)
     (simp_all add: bin_value_snoc int_of_digit_def, simp add: bin_value_def)

lemma bin_value_format_08b: "bin_value (format_08b b) = uint b"
proof -
  have "format_08b b = map (\<lambda>b. if b then CHR ''1'' else CHR ''0'') (rev (map (bit b) [0..<8]))"
    by (simp add: format_08b_def upt_rec numeral_nat)
  moreover have "map (bit b) [0..<8] = map (bit (uint b)) [0..<8]"
    by (simp add: bit_uint_iff)
  ultimately have "bin_value (format_08b b) = horner_sum of_bool 2 (map (bit (uint b)) [0..<8])"
    by (simp add: bin_value_horner)
  also have "\<dots> = take_bit 8 (uint b)"
    by (rule horner_sum_bit_eq_take_bit)
  also have "\<dots> = uint b"
    by (simp add: take_bit_int_eq_self_iff uint_lt2p [where 'a = 8, simplified])
  finally show ?thesis .
qed

lemma format_08b_bin: "list_all is_bin_digit (format_08b b)"
  by (simp add: format_08b_def is_bin_digit_def)

lemma format_08b_length: "length (format_08b b) = 8"
  by (simp add: format_08b_def)

lemma str_int_digit: "is_bin_digit c \<Longrightarrow> str_int (int_of_digit c) = [c]"
  by (auto simp: is_bin_digit_def int_of_digit_def str_int_bit)

lemma join_digits: "list_all is_bin_digit s \<Longrightarrow> concat (map str_int (map int_of_digit s)) = s"
  by (induction s) (simp_all add: str_int_digit)

lemma int_base2_bin: "list_all is_bin_digit s \<Longrightarrow> s \<noteq> [] \<Longrightarrow> int_base2 s = Inr (bin_value s)"
  by (cases s) (auto simp: int_base2_def is_bin_digit_def)

lemma chunk_parse:
  "int_base2 (concat (map (str_int \<circ> int_of_digit) (format_08b b))) = Inr (uint b)"
proof -
  have "format_08b b \<noteq> []"
    using format_08b_length [of b] by auto
  then show ?thesis
    using join_digits [OF format_08b_bin, of b]
    by (simp add: int_base2_bin format_08b_bin bin_value_format_08b)
qed

lemma bytes_to_bits_length: "length (bytes_to_bits x) = 8 * length x"
  by (induction x) (simp_all add: format_08b_length)

lemma bytes_to_bits_append: "bytes_to_bits (x @ y) = bytes_to_bits x @ bytes_to_bits y"
  by (induction x) simp_all

lemma bytes_to_bits_bits01: "bits01 (bytes_to_bits x)"
  by (induction x) (simp_all add: bits01_def format_08b_def int_of_digit_def)

lemma byte_values_short: "length bits < 8 \<Longrightarrow> byte_values bits = Inr []"
  by (subst byte_values.simps) simp

lemma byte_values_bytes_to_bits:
  "byte_values (bytes_to_bits x @ rest) =
     (case byte_values rest of Inl e \<Rightarrow> Inl e | Inr vs \<Rightarrow> Inr (map uint x @ vs))"
proof (induction x)
  case Nil
  then show ?case by (simp split: sum.splits)
next
  case (Cons b x)
  then show ?case
    by (subst byte_values.simps) (simp add: format_08b_length chunk_parse split: sum.splits)
qed

lemma bytes_of_ints_uint: "bytes_of_ints (map uint (x :: byte list)) = Inr x"
proof -
  have "list_all (\<lambda>v. 0 \<le> v \<and> v < 256) (map uint x)"
    using uint_lt2p [where 'a = 8] by (simp add: list_all_iff)
  then show ?thesis
    by (simp add: bytes_of_ints_def comp_def)
qed

lemma bits_to_bytes_append_short:
  "length tail < 8 \<Longrightarrow> bits_to_bytes (bytes_to_bits x @ tail) = Inr x"
  using byte_values_bytes_to_bits [of x tail] bytes_of_ints_uint [of x]
  by (simp add: bits_to_bytes_def byte_values_short)

lemma chunk_surj:
  assumes "bits01 c" and "length c = 8"
  shows "\<exists>b. map int_of_digit (format_08b b) = c"
proof -
  from assms(2) obtain a7 a6 a5 a4 a3 a2 a1 a0 where c: "c = [a7, a6, a5, a4, a3, a2, a1, a0]"
    by (auto simp: length_Suc_conv numeral_eq_Suc)
  let ?b = "horner_sum of_bool 2 (map (\<lambda>a. a = 1) [a0, a1, a2, a3, a4, a5, a6, a7]) :: byte"
  have "map int_of_digit (format_08b ?b) = map (\<lambda>a. if a = 1 then 1 else 0) c"
    unfolding c format_08b_def
    by (simp add: bit_horner_sum_bit_word_iff int_of_digit_def del: horner_sum_simps)
  also have "\<dots> = c"
    using assms(1) by (intro map_idI) (auto simp: bits01_def list_all_iff)
  finally show ?thesis ..
qed

text \<open>Every list of bits is the bits of some bytes, followed by fewer than eight bits.\<close>

lemma bits01_split:
  "bits01 bits \<Longrightarrow> \<exists>x tail. bits = bytes_to_bits x @ tail \<and> length tail < 8 \<and> bits01 tail"
proof (induction "length bits" arbitrary: bits rule: less_induct)
  case less
  show ?case
  proof (cases "length bits < 8")
    case True
    then have "bits = bytes_to_bits [] @ bits" by simp
    with True less.prems show ?thesis by blast
  next
    case False
    let ?c = "take 8 bits" and ?r = "drop 8 bits"
    have c: "bits01 ?c" "length ?c = 8" and r: "bits01 ?r" "length ?r < length bits"
      using False less.prems
      by (auto simp: bits01_def list_all_iff dest: in_set_takeD in_set_dropD)
    from chunk_surj [OF c] obtain b where b: "map int_of_digit (format_08b b) = ?c" ..
    from less.hyps [OF r(2) r(1)] obtain x tail where
      x: "?r = bytes_to_bits x @ tail" "length tail < 8" "bits01 tail" by blast
    have "bits = ?c @ ?r" by simp
    also have "\<dots> = bytes_to_bits (b # x) @ tail" using b x(1) by simp
    finally show ?thesis using x(2,3) by blast
  qed
qed

text \<open>\<^verbatim>\<open>bits_to_bytes\<close> raises on no list of bits.\<close>

lemma bits_to_bytes_total:
  assumes "bits01 bits"
  shows "\<exists>x. bits_to_bytes bits = Inr x \<and> length x = length bits div 8"
proof -
  from bits01_split [OF assms] obtain x tail where
    x: "bits = bytes_to_bits x @ tail" "length tail < 8" by blast
  then have "length bits div 8 = length x"
    by (simp add: bytes_to_bits_length)
  with x show ?thesis
    by (simp add: bits_to_bytes_append_short)
qed

lemma bits_to_bytes_append:
  assumes "bits01 rest"
  shows "\<exists>r. bits_to_bytes (bytes_to_bits x @ rest) = Inr (x @ r)"
proof -
  from bits01_split [OF assms] obtain y tail where
    y: "rest = bytes_to_bits y @ tail" "length tail < 8" by blast
  have "bytes_to_bits x @ rest = bytes_to_bits (x @ y) @ tail"
    by (simp add: y(1) bytes_to_bits_append)
  then show ?thesis
    using bits_to_bytes_append_short [OF y(2), of "x @ y"] by auto
qed

text \<open>
  Claim C3. For every byte sequence \<open>x\<close>, \<^verbatim>\<open>bits_to_bytes(bytes_to_bits(x))\<close> returns \<open>x\<close>:
  \<^verbatim>\<open>bytes_to_bits\<close> writes eight bits per byte, the most significant first, and
  \<^verbatim>\<open>bits_to_bytes\<close> reads the chunks of eight back in order.
\<close>

theorem bits_round_trip: "bits_to_bytes (bytes_to_bits x) = Inr x"
  using bits_to_bytes_append_short [of "[]" x] by simp

text \<open>
  Claim C9. For every list of bits (each element 0 or 1) whose length is a multiple of 8,
  \<^verbatim>\<open>bits_to_bytes\<close> returns bytes, and \<^verbatim>\<open>bytes_to_bits\<close> of these is the list again.
\<close>

theorem bytes_round_trip:
  assumes "bits01 bits" and "length bits mod 8 = 0"
  shows "\<exists>bs. bits_to_bytes bits = Inr bs \<and> bytes_to_bits bs = bits"
proof -
  from bits01_split [OF assms(1)] obtain x tail where
    x: "bits = bytes_to_bits x @ tail" "length tail < 8" by blast
  then have "length bits = 8 * length x + length tail"
    by (simp add: bytes_to_bits_length)
  with assms(2) x(2) have "tail = []" by auto
  with x show ?thesis
    using bits_to_bytes_append_short [of "[]" x] by simp
qed

theorem bytes_round_trip_witness:
  "bits01 [0, 1, 0, 0, 0, 0, 0, 1] \<and> length [0, 1, 0, 0, 0, 0, 0, 1 :: int] mod 8 = 0
   \<and> (\<exists>bs. bits_to_bytes [0, 1, 0, 0, 0, 0, 0, 1] = Inr bs
          \<and> bytes_to_bits bs = [0, 1, 0, 0, 0, 0, 0, 1])"
proof -
  have h: "bits01 [0, 1, 0, 0, 0, 0, 0, 1]" "length [0, 1, 0, 0, 0, 0, 0, 1 :: int] mod 8 = 0"
    by (simp_all add: bits01_def)
  show ?thesis
    using h bytes_round_trip [OF h] by simp
qed

section \<open>The UTF-8 codec: lemmas\<close>

lemma unat_byte: "n < 256 \<Longrightarrow> unat (of_nat n :: byte) = n"
  by (simp add: unat_of_nat)

lemma mod64_cont: "(0x80 + x mod 64) mod 64 = x mod (64::nat)"
  using mod_mult_self4 [of 64 2 "x mod 64"] by simp

lemma split64: "q div 64 * (64 * k) + q mod 64 * k = q * (k::nat)"
proof -
  have "q * k = (q div 64 * 64 + q mod 64) * k"
    by (simp only: div_mult_mod_eq)
  also have "\<dots> = q div 64 * 64 * k + q mod 64 * k"
    by (simp only: add_mult_distrib)
  also have "\<dots> = q div 64 * (64 * k) + q mod 64 * k"
    by (simp only: mult.assoc)
  finally show ?thesis by simp
qed

lemma cp2_val: "(0xC0 + c div 64 - 0xC0) * 64 + (0x80 + c mod 64) mod 64 = (c::nat)"
  by (simp add: mod64_cont)

lemma cp3_val:
  "(0xE0 + c div 4096 - 0xE0) * 4096 + (0x80 + (c div 64) mod 64) mod 64 * 64
     + (0x80 + c mod 64) mod 64 = (c::nat)"
proof -
  have "c div 4096 = c div 64 div 64"
    by (simp add: div_mult2_eq [symmetric])
  then have "c div 4096 * 4096 + (c div 64) mod 64 * 64 = c div 64 * 64"
    using split64 [of "c div 64" 64] by simp
  then show ?thesis by (simp add: mod64_cont)
qed

lemma cp4_val:
  "(0xF0 + c div 262144 - 0xF0) * 262144 + (0x80 + (c div 4096) mod 64) mod 64 * 4096
     + (0x80 + (c div 64) mod 64) mod 64 * 64 + (0x80 + c mod 64) mod 64 = (c::nat)"
proof -
  have a: "c div 262144 = c div 4096 div 64"
    by (simp add: div_mult2_eq [symmetric])
  have b: "c div 4096 = c div 64 div 64"
    by (simp add: div_mult2_eq [symmetric])
  have "c div 262144 * 262144 + (c div 4096) mod 64 * 4096 = c div 4096 * 4096"
    using split64 [of "c div 4096" 4096] unfolding a by simp
  moreover have "c div 4096 * 4096 + (c div 64) mod 64 * 64 = c div 64 * 64"
    using split64 [of "c div 64" 64] unfolding b by simp
  ultimately show ?thesis by (simp add: mod64_cont)
qed

lemma decode_one_1: "n0 < 0x80 \<Longrightarrow> decode_one (of_nat n0) rest = Some (n0, 0)"
  by (simp add: decode_one_def unat_byte)

lemma decode_one_2:
  assumes "0xC0 \<le> n0" "n0 < 0xE0" "0x80 \<le> n1" "n1 \<le> 0xBF"
    and "cp = (n0 - 0xC0) * 64 + n1 mod 64" and "0x80 \<le> cp"
  shows "decode_one (of_nat n0) (of_nat n1 # rest) = Some (cp, 1)"
  using assms by (simp add: decode_one_def unat_byte is_cont_def cont_val_def)

lemma decode_one_3:
  assumes "0xE0 \<le> n0" "n0 < 0xF0" "0x80 \<le> n1" "n1 \<le> 0xBF" "0x80 \<le> n2" "n2 \<le> 0xBF"
    and "cp = (n0 - 0xE0) * 4096 + n1 mod 64 * 64 + n2 mod 64"
    and "0x800 \<le> cp" "\<not> (0xD800 \<le> cp \<and> cp \<le> 0xDFFF)"
  shows "decode_one (of_nat n0) (of_nat n1 # of_nat n2 # rest) = Some (cp, 2)"
  using assms by (simp add: decode_one_def unat_byte is_cont_def cont_val_def)

lemma decode_one_4:
  assumes "0xF0 \<le> n0" "n0 < 0xF8" "0x80 \<le> n1" "n1 \<le> 0xBF" "0x80 \<le> n2" "n2 \<le> 0xBF"
    "0x80 \<le> n3" "n3 \<le> 0xBF"
    and "cp = (n0 - 0xF0) * 262144 + n1 mod 64 * 4096 + n2 mod 64 * 64 + n3 mod 64"
    and "0x10000 \<le> cp" "cp < 0x110000"
  shows "decode_one (of_nat n0) (of_nat n1 # of_nat n2 # of_nat n3 # rest) = Some (cp, 3)"
  using assms by (simp add: decode_one_def unat_byte is_cont_def cont_val_def)

lemma cont_range: "0x80 \<le> 0x80 + x mod 64" "0x80 + x mod 64 \<le> (0xBF::nat)"
  using mod_less_divisor [of 64 x] by simp_all

text \<open>The decoder reads back what the encoder wrote for one code point.\<close>

lemma decode_one_encode_cp:
  assumes "encode_cp c = Inr bs"
  shows "\<exists>b0 tl. bs = b0 # tl \<and> decode_one b0 (tl @ rest) = Some (c, length tl)"
proof -
  consider "c < 0x80" | "0x80 \<le> c" "c < 0x800"
    | "0x800 \<le> c" "c < 0x10000" "\<not> (0xD800 \<le> c \<and> c \<le> 0xDFFF)"
    | "0x10000 \<le> c" "c < 0x110000"
    using assms by (auto simp: encode_cp_def split: if_splits)
  then show ?thesis
  proof cases
    case 1
    then have "bs = [of_nat c]"
      using assms by (simp add: encode_cp_def)
    then show ?thesis
      using decode_one_1 [OF 1] by simp
  next
    case 2
    have bs: "bs = [of_nat (0xC0 + c div 64), of_nat (0x80 + c mod 64)]"
      using 2 assms by (auto simp: encode_cp_def)
    have lead: "0xC0 \<le> 0xC0 + c div 64" "0xC0 + c div 64 < 0xE0"
      using 2 by auto
    have "decode_one (of_nat (0xC0 + c div 64)) (of_nat (0x80 + c mod 64) # rest) = Some (c, 1)"
      by (rule decode_one_2 [OF lead cont_range cp2_val [symmetric] 2(1)])
    then show ?thesis
      unfolding bs by simp
  next
    case 3
    have bs: "bs = [of_nat (0xE0 + c div 4096), of_nat (0x80 + (c div 64) mod 64),
        of_nat (0x80 + c mod 64)]"
      using 3 assms by (auto simp: encode_cp_def)
    have lead: "0xE0 \<le> 0xE0 + c div 4096" "0xE0 + c div 4096 < 0xF0"
      using 3 by auto
    have "decode_one (of_nat (0xE0 + c div 4096))
        (of_nat (0x80 + (c div 64) mod 64) # of_nat (0x80 + c mod 64) # rest) = Some (c, 2)"
      by (rule decode_one_3 [OF lead cont_range cont_range cp3_val [symmetric] 3(1) 3(3)])
    then show ?thesis
      unfolding bs by simp
  next
    case 4
    have bs: "bs = [of_nat (0xF0 + c div 262144), of_nat (0x80 + (c div 4096) mod 64),
        of_nat (0x80 + (c div 64) mod 64), of_nat (0x80 + c mod 64)]"
      using 4 assms by (auto simp: encode_cp_def)
    have lead: "0xF0 \<le> 0xF0 + c div 262144" "0xF0 + c div 262144 < 0xF8"
      using 4 by auto
    have "decode_one (of_nat (0xF0 + c div 262144))
        (of_nat (0x80 + (c div 4096) mod 64) # of_nat (0x80 + (c div 64) mod 64)
          # of_nat (0x80 + c mod 64) # rest) = Some (c, 3)"
      by (rule decode_one_4 [OF lead cont_range cont_range cont_range cp4_val [symmetric] 4])
    then show ?thesis
      unfolding bs by simp
  qed
qed

lemma utf8_decode_encode: "utf8_encode s = Inr bs \<Longrightarrow> utf8_decode bs = Inr s"
proof (induction s arbitrary: bs)
  case Nil
  then show ?case by simp
next
  case (Cons c s)
  then obtain cb r where cb: "encode_cp c = Inr cb" and r: "utf8_encode s = Inr r"
    and bs: "bs = cb @ r"
    by (auto split: sum.splits)
  from decode_one_encode_cp [OF cb, of r] obtain b0 tl where
    "cb = b0 # tl" "decode_one b0 (tl @ r) = Some (c, length tl)" by blast
  then show ?case
    using Cons.IH [OF r] bs by simp
qed

lemma encode_cp_nonempty: "encode_cp c = Inr bs \<Longrightarrow> bs \<noteq> []"
  by (auto simp: encode_cp_def split: if_splits)

lemma utf8_encode_nonempty: "utf8_encode s = Inr key \<Longrightarrow> s \<noteq> [] \<Longrightarrow> key \<noteq> []"
  by (cases s) (auto split: sum.splits dest: encode_cp_nonempty)

section \<open>The XOR cipher: lemmas\<close>

lemma zip_cycle_length: "ks \<noteq> [] \<Longrightarrow> length (zip_cycle xs ks) = length xs"
  by (simp add: zip_cycle_def)

lemma zip_cycle_nth:
  "ks \<noteq> [] \<Longrightarrow> i < length xs \<Longrightarrow> zip_cycle xs ks ! i = (xs ! i, ks ! (i mod length ks))"
  by (simp add: zip_cycle_def)

lemma xor_key_twice:
  assumes "key \<noteq> []"
  shows "map (\<lambda>(a, b). a XOR b) (zip_cycle (map (\<lambda>(a, b). a XOR b) (zip_cycle data key)) key)
    = (data :: byte list)"
  by (rule nth_equalityI) (simp_all add: zip_cycle_length zip_cycle_nth assms xor.assoc)

lemma xor_cipher_Inr:
  "utf8_encode k = Inr key \<Longrightarrow> k \<noteq> [] \<Longrightarrow>
     xor_cipher x k = Inr (map (\<lambda>(a, b). a XOR b) (zip_cycle x key))"
  by (simp add: xor_cipher_def)

lemma xor_cipher_twice:
  assumes "utf8_encode k = Inr key"
  shows "\<exists>y. xor_cipher x k = Inr y \<and> xor_cipher y k = Inr x \<and> length y = length x"
proof (cases "k = []")
  case True
  then show ?thesis by (simp add: xor_cipher_def)
next
  case False
  with assms have "key \<noteq> []"
    using utf8_encode_nonempty by blast
  then show ?thesis
    using assms False by (simp add: xor_cipher_Inr xor_key_twice zip_cycle_length)
qed

section \<open>The loops over the pixels: lemmas\<close>

lemma hide_row_upt:
  "hide_row bits y [a..<w] (px, idx) =
     (\<lambda>(x, y'). if y' = y \<and> a \<le> x \<and> x < w \<and> idx + (x - a) < length bits
                 then put_bit (px (x, y')) (bits ! (idx + (x - a))) else px (x, y'),
      max idx (min (length bits) (idx + (w - a))))"
proof (induction "w - a" arbitrary: a px idx)
  case 0
  then show ?case by (auto simp: fun_eq_iff)
next
  case (Suc n)
  then have a: "a < w" and n: "n = w - Suc a" by auto
  have upt: "[a..<w] = a # [Suc a..<w]" using a by (simp add: upt_conv_Cons)
  show ?case
  proof (cases "idx < length bits")
    case True
    have e: "\<And>x. Suc a \<le> x \<Longrightarrow> Suc (idx + x - Suc a) = idx + x - a"
      by auto
    show ?thesis
      unfolding upt using True a
      by (simp add: Suc.hyps(1) [OF n] Let_def split: prod.splits)
         (auto simp: fun_eq_iff put_bit_def e split: prod.splits)
  next
    case False
    then show ?thesis unfolding upt by (auto simp: fun_eq_iff)
  qed
qed

lemma hide_row_full:
  "hide_row bits y [0..<w] (px, idx) =
     (\<lambda>(x, y'). if y' = y \<and> x < w \<and> idx + x < length bits
                 then put_bit (px (x, y')) (bits ! (idx + x)) else px (x, y'),
      max idx (min (length bits) (idx + w)))"
  using hide_row_upt [of bits y 0 w px idx] by (simp cong: if_cong)

lemma hide_rows_upt:
  "fst (hide_rows bits w [c..<h] (px, min (length bits) (c * w))) =
     (\<lambda>(x, y). if c \<le> y \<and> y < h \<and> x < w \<and> y * w + x < length bits
                then put_bit (px (x, y)) (bits ! (y * w + x)) else px (x, y))"
proof (induction "h - c" arbitrary: c px)
  case 0
  then show ?case by (auto simp: fun_eq_iff)
next
  case (Suc n)
  then have c: "c < h" and n: "n = h - Suc c" by auto
  have upt: "[c..<h] = c # [Suc c..<h]" using c by (simp add: upt_conv_Cons)
  have idx: "max (min (length bits) (c * w)) (min (length bits) (min (length bits) (c * w) + w))
      = min (length bits) (Suc c * w)"
    by (auto simp: min_def max_def)
  let ?L = "length bits"
  let ?px1 = "\<lambda>(x, y'). if y' = c \<and> x < w \<and> min ?L (c * w) + x < ?L
      then put_bit (px (x, y')) (bits ! (min ?L (c * w) + x)) else px (x, y')"
  have "hide_rows bits w [c..<h] (px, min ?L (c * w))
      = hide_rows bits w [Suc c..<h] (?px1, min ?L (Suc c * w))"
    unfolding upt by (simp only: hide_rows.simps hide_row_full idx)
  then have eq: "fst (hide_rows bits w [c..<h] (px, min ?L (c * w))) =
     (\<lambda>(x, y). if Suc c \<le> y \<and> y < h \<and> x < w \<and> y * w + x < ?L
                then put_bit (?px1 (x, y)) (bits ! (y * w + x)) else ?px1 (x, y))"
    by (simp only: Suc.hyps(1) [OF n])
  show ?case
  proof (rule ext, clarify)
    fix x y
    consider "y < c" | "y = c" | "Suc c \<le> y" by linarith
    then show "fst (hide_rows bits w [c..<h] (px, min ?L (c * w))) (x, y) =
      (if c \<le> y \<and> y < h \<and> x < w \<and> y * w + x < ?L
       then put_bit (px (x, y)) (bits ! (y * w + x)) else px (x, y))"
    proof cases
      case 1
      then show ?thesis unfolding eq by simp
    next
      case 2
      then show ?thesis unfolding eq using c by (auto simp: min_def)
    next
      case 3
      then show ?thesis unfolding eq by auto
    qed
  qed
qed

lemma extract_row_upt:
  "extract_row px y [a..<w] (eb, cnt) =
     (eb @ map (\<lambda>x. blue_lsb (px (x, y))) [a..<a + min (w - a) (max_bits - cnt)],
      cnt + min (w - a) (max_bits - cnt))"
proof (induction "w - a" arbitrary: a eb cnt)
  case 0
  then show ?case by simp
next
  case (Suc n)
  then have a: "a < w" and n: "n = w - Suc a" by auto
  have upt: "[a..<w] = a # [Suc a..<w]" using a by (simp add: upt_conv_Cons)
  show ?case
  proof (cases "cnt \<ge> max_bits")
    case True
    then show ?thesis unfolding upt by simp
  next
    case False
    define k where "k = min (w - Suc a) (max_bits - Suc cnt)"
    have m: "min (w - a) (max_bits - cnt) = Suc k"
      using a False by (auto simp: min_def k_def)
    have r: "[a..<a + Suc k] = a # [Suc a..<Suc a + k]"
      by (simp add: upt_conv_Cons)
    have "extract_row px y [a..<w] (eb, cnt)
        = extract_row px y [Suc a..<w] (eb @ [blue_lsb (px (a, y))], Suc cnt)"
      unfolding upt using False
      by (simp add: blue_lsb_def blue_def split: prod.splits)
    also have "\<dots> = ((eb @ [blue_lsb (px (a, y))]) @ map (\<lambda>x. blue_lsb (px (x, y))) [Suc a..<Suc a + k],
        Suc cnt + k)"
      unfolding k_def by (rule Suc.hyps(1) [OF n])
    finally show ?thesis
      unfolding m r by simp
  qed
qed

lemma upt_append_le: "a \<le> b \<Longrightarrow> b \<le> c \<Longrightarrow> [a..<b] @ [b..<c] = [a..<c]"
  by (metis le_Suc_ex upt_add_eq_append)

lemma row_major_map:
  assumes "n \<le> w"
  shows "map (\<lambda>i. f (i mod w, i div w)) [c * w..<c * w + n] = map (\<lambda>x. f (x, c)) [0..<n]"
proof -
  have "[c * w..<c * w + n] = map (\<lambda>i. i + c * w) [0..<n]"
    by (simp add: map_add_upt add.commute)
  then have "map (\<lambda>i. f (i mod w, i div w)) [c * w..<c * w + n]
      = map (\<lambda>x. f ((x + c * w) mod w, (x + c * w) div w)) [0..<n]"
    by (simp add: comp_def)
  also have "\<dots> = map (\<lambda>x. f (x, c)) [0..<n]"
    using assms by (intro map_cong) auto
  finally show ?thesis .
qed

lemma extract_rows_upt:
  "fst (extract_rows px w [c..<h] (eb, min max_bits (c * w))) =
     eb @ map (\<lambda>i. blue_lsb (px (i mod w, i div w)))
            [min max_bits (c * w)..<min max_bits (max c h * w)]"
proof (induction "h - c" arbitrary: c eb)
  case 0
  then show ?case by (simp add: max_def)
next
  case (Suc n)
  then have c: "c < h" and n: "n = h - Suc c" by auto
  have upt: "[c..<h] = c # [Suc c..<h]" using c by (simp add: upt_conv_Cons)
  have mx: "max c h = h" "max (Suc c) h = h" using c by auto
  show ?case
  proof (cases "c * w \<ge> max_bits")
    case True
    then have "max_bits \<le> h * w"
      using c by (meson le_trans less_imp_le mult_le_mono1)
    with True show ?thesis unfolding upt mx by (simp add: min_def)
  next
    case False
    let ?g = "\<lambda>i. blue_lsb (px (i mod w, i div w))"
    let ?k = "min w (max_bits - c * w)"
    have cnt: "min max_bits (c * w) = c * w" using False by simp
    have k: "c * w + ?k = min max_bits (Suc c * w)" using False by (auto simp: min_def)
    have le: "min max_bits (Suc c * w) \<le> min max_bits (h * w)"
      using c by (simp add: min.coboundedI2 Suc_leI mult_le_mono1 del: mult_Suc)
    have "fst (extract_rows px w [c..<h] (eb, c * w))
      = fst (extract_rows px w [Suc c..<h]
           (eb @ map (\<lambda>x. blue_lsb (px (x, c))) [0..<?k], min max_bits (Suc c * w)))"
      unfolding upt using False
      by (simp add: extract_row_upt k del: mult_Suc)
    also have "\<dots> = (eb @ map (\<lambda>x. blue_lsb (px (x, c))) [0..<?k])
         @ map ?g [min max_bits (Suc c * w)..<min max_bits (h * w)]"
      by (simp only: Suc.hyps(1) [OF n] mx)
    also have "map (\<lambda>x. blue_lsb (px (x, c))) [0..<?k] = map ?g [c * w..<c * w + ?k]"
      by (rule row_major_map [symmetric]) simp
    also have "(eb @ map ?g [c * w..<c * w + ?k]) @ map ?g [min max_bits (Suc c * w)..<min max_bits (h * w)]
       = eb @ map ?g ([c * w..<min max_bits (Suc c * w)] @ [min max_bits (Suc c * w)..<min max_bits (h * w)])"
      unfolding k by simp
    also have "[c * w..<min max_bits (Suc c * w)] @ [min max_bits (Suc c * w)..<min max_bits (h * w)]
       = [c * w..<min max_bits (h * w)]"
      using le k by (intro upt_append_le) (auto simp del: mult_Suc)
    finally show ?thesis unfolding cnt mx .
  qed
qed

lemma recover_eq:
  "recover img = map (\<lambda>i. blue_lsb (pixel_at img i)) [0..<min max_bits (width img * height img)]"
  using extract_rows_upt [of "pixels img" "width img" 0 "height img" "[]"]
  by (simp add: recover_def pixel_at_def mult.commute)

lemma embed_pixels:
  "pixels (embed img bits) (x, y) =
     (if y < height img \<and> x < width img \<and> y * width img + x < length bits
      then put_bit (pixels img (x, y)) (bits ! (y * width img + x)) else pixels img (x, y))"
  using hide_rows_upt [of bits "width img" 0 "height img" "pixels img"]
  by (simp add: embed_def)

lemma embed_size: "width (embed img bits) = width img" "height (embed img bits) = height img"
  by (simp_all add: embed_def)

lemma row_major_index:
  assumes "i < w * (h::nat)"
  shows "i mod w < w" "i div w < h" "i div w * w + i mod w = i"
proof -
  from assms have "0 < w" by (cases w) auto
  then show "i mod w < w" by simp
  show "i div w < h" using assms by (simp add: less_mult_imp_div_less mult.commute)
  show "i div w * w + i mod w = i" by simp
qed

lemma embed_pixel_at:
  assumes "length bits \<le> width img * height img"
  shows "pixel_at (embed img bits) i =
     (if i < length bits then put_bit (pixel_at img i) (bits ! i) else pixel_at img i)"
proof (cases "i < length bits")
  case True
  then have "i < width img * height img" using assms by simp
  from row_major_index [OF this] True show ?thesis
    by (simp add: pixel_at_def embed_pixels embed_size)
next
  case False
  have "\<not> (i div width img * width img + i mod width img < length bits)"
    using False by simp
  then show ?thesis
    using False by (simp add: pixel_at_def embed_pixels embed_size)
qed

lemma and_1_byte: "(b :: byte) AND 1 = of_bool (odd b)"
  by (simp add: and_one_eq mod_2_eq_odd)

lemma blue_lsb_bit: "blue_lsb p = 0 \<or> blue_lsb p = 1"
  by (simp add: blue_lsb_def and_1_byte)

lemma clear_and1: "(b AND NOT 1) AND 1 = (0 :: byte)"
  by (rule bit_eqI) (auto simp: bit_simps)

lemma set_and1: "((b AND NOT 1) OR 1) AND 1 = (1 :: byte)"
  by (rule bit_eqI) (auto simp: bit_simps)

lemma put0: "(b AND - 2) AND 1 = (0 :: byte)"
  using clear_and1 [of b] by simp

lemma put1: "((b AND - 2) OR 1) AND 1 = (1 :: byte)"
  using set_and1 [of b] by simp

lemma blue_lsb_put_bit: "v = 0 \<or> v = 1 \<Longrightarrow> blue_lsb (put_bit p v) = v"
  by (cases p) (auto simp: blue_lsb_def put_bit_def blue_def put0 put1)





section \<open>Searching for the stop marker: lemmas\<close>

lemma take_eq_length:
  assumes "take (length sub) xs = sub"
  shows "length sub \<le> length xs"
proof -
  have "length (take (length sub) xs) = length sub"
    by (simp only: assms)
  then show ?thesis by simp
qed

lemma take_append_le: "n \<le> length xs \<Longrightarrow> take n (xs @ r) = take n xs"
  by simp

lemma find_bytes_Some:
  "find_bytes xs sub = Some i \<Longrightarrow> i + length sub \<le> length xs \<and> take (length sub) (drop i xs) = sub"
proof (induction xs arbitrary: i)
  case Nil
  then show ?case by (auto split: if_splits)
next
  case (Cons b bs)
  show ?case
  proof (cases "take (length sub) (b # bs) = sub")
    case True
    then have "length sub \<le> length (b # bs)"
      by (rule take_eq_length)
    with True Cons.prems show ?thesis by simp
  next
    case False
    with Cons.prems obtain j where j: "find_bytes bs sub = Some j" "i = Suc j" by auto
    from Cons.IH [OF j(1)] j(2) show ?thesis by simp
  qed
qed

lemma find_bytes_append:
  "find_bytes xs sub = Some i \<Longrightarrow> find_bytes (xs @ r) sub = Some i"
proof (induction xs arbitrary: i)
  case Nil
  then show ?case by (cases r) (auto split: if_splits)
next
  case (Cons b bs)
  have len: "length sub \<le> length (b # bs)"
    using find_bytes_Some [OF Cons.prems] by simp
  have tk: "take (length sub) (b # bs @ r) = take (length sub) (b # bs)"
    using take_append_le [OF len, of r] by simp
  show ?case
  proof (cases "take (length sub) (b # bs) = sub")
    case True
    with Cons.prems tk show ?thesis by simp
  next
    case False
    with Cons.prems obtain j where j: "find_bytes bs sub = Some j" "i = Suc j" by auto
    from Cons.IH [OF j(1)] j(2) False tk show ?thesis by simp
  qed
qed

lemma find_bytes_None: "hd sub \<notin> set xs \<Longrightarrow> sub \<noteq> [] \<Longrightarrow> find_bytes xs sub = None"
proof (induction xs)
  case Nil
  then show ?case by simp
next
  case (Cons b bs)
  then have "take (length sub) (b # bs) \<noteq> sub"
    by (cases sub) auto
  with Cons show ?case by simp
qed

lemma find_bytes_replicate:
  assumes "sub \<noteq> []" and "hd sub \<noteq> a"
  shows "find_bytes (replicate n a @ ys) sub = map_option (\<lambda>i. n + i) (find_bytes ys sub)"
proof (induction n)
  case 0
  then show ?case by (simp add: option.map_ident)
next
  case (Suc n)
  have "take (length sub) (a # replicate n a @ ys) \<noteq> sub"
    using assms by (cases sub) auto
  then show ?case
    by (simp add: Suc option.map_comp comp_def)
qed

section \<open>\<^verbatim>\<open>stego_hide\<close> and \<^verbatim>\<open>stego_extract\<close>: lemmas\<close>

lemma stop_marker_length: "length stop_marker = 6"
  by (simp add: stop_marker_def)

lemma cipher_if: "(if k \<noteq> [] then xor_cipher d k else Inr d) = xor_cipher d k"
  by (simp add: xor_cipher_def)

lemma stego_hide_eq:
  assumes "utf8_encode s = Inr d" and "xor_cipher d k = Inr c"
  shows "stego_hide img s k =
    (if 8 * (length c + 6) > width img * height img then Inl (ValueError, Some img)
     else Inr (embed img (bytes_to_bits (c @ stop_marker))))"
  using assms by (simp add: stego_hide_def cipher_if bytes_to_bits_length stop_marker_def Let_def)

lemma stego_hide_Inr:
  assumes "stego_hide img s k = Inr hidden"
  obtains d c where "utf8_encode s = Inr d" "xor_cipher d k = Inr c"
    "8 * (length c + 6) \<le> width img * height img"
    "hidden = embed img (bytes_to_bits (c @ stop_marker))"
  using assms
  by (auto simp: stego_hide_def cipher_if bytes_to_bits_length stop_marker_def Let_def
      split: sum.splits if_splits)

lemma bits01_nth: "bits01 bits \<Longrightarrow> i < length bits \<Longrightarrow> bits ! i = 0 \<or> bits ! i = 1"
  by (simp add: bits01_def list_all_length)

text \<open>What is read back from an image that holds embedded bits.\<close>

lemma recover_embed:
  assumes "bits01 bits" and "length bits \<le> width img * height img"
  shows "recover (embed img bits) =
    take max_bits bits @ map (\<lambda>i. blue_lsb (pixel_at img i))
       [length bits..<min max_bits (width img * height img)]"
proof -
  let ?N = "min max_bits (width img * height img)"
  let ?L = "length bits"
  let ?f = "\<lambda>i. blue_lsb (pixel_at (embed img bits) i)"
  have r: "recover (embed img bits) = map ?f [0..<?N]"
    by (simp add: recover_eq embed_size)
  have lo: "map ?f [0..<min ?L ?N] = take max_bits bits"
  proof (rule nth_equalityI)
    show "length (map ?f [0..<min ?L ?N]) = length (take max_bits bits)"
      using assms(2) by (simp add: min_def)
  next
    fix i assume "i < length (map ?f [0..<min ?L ?N])"
    then have i: "i < ?L" "i < max_bits" by auto
    then show "map ?f [0..<min ?L ?N] ! i = take max_bits bits ! i"
      using assms bits01_nth [OF assms(1) i(1)]
      by (simp add: embed_pixel_at blue_lsb_put_bit)
  qed
  have hi: "map ?f [min ?L ?N..<?N] = map (\<lambda>i. blue_lsb (pixel_at img i)) [?L..<?N]"
  proof (cases "?L \<le> ?N")
    case True
    then have "min ?L ?N = ?L" by simp
    then show ?thesis using assms(2) by (simp add: embed_pixel_at)
  next
    case False
    then have "min ?L ?N = ?N" "?N \<le> ?L" by (simp_all add: min_def)
    then show ?thesis by simp
  qed
  have "[0..<?N] = [0..<min ?L ?N] @ [min ?L ?N..<?N]"
    by (rule upt_append_le [symmetric]) (simp_all add: min.coboundedI2)
  then have "map ?f [0..<?N] = map ?f [0..<min ?L ?N] @ map ?f [min ?L ?N..<?N]"
    by (metis map_append)
  then show ?thesis
    unfolding r lo hi .
qed

lemma recover_bits01: "bits01 (recover img)"
  using blue_lsb_bit by (simp add: recover_eq bits01_def list_all_iff)

lemma recover_length: "length (recover img) = min max_bits (width img * height img)"
  by (simp add: recover_eq)

lemma utf8_decode_error: "utf8_decode b = Inl e \<Longrightarrow> e = UnicodeDecodeError"
  by (induction b arbitrary: e rule: utf8_decode.induct) (auto split: option.splits sum.splits)

lemma utf8_encode_error: "utf8_encode s = Inl e \<Longrightarrow> e = UnicodeEncodeError"
proof (induction s)
  case Nil
  then show ?case by simp
next
  case (Cons c s)
  then show ?case
    by (auto simp: encode_cp_def split: sum.splits if_splits)
qed

lemma xor_cipher_Inl:
  "utf8_encode password = Inl e \<Longrightarrow> xor_cipher data password = Inl UnicodeEncodeError"
  using utf8_encode_error [of password e] by (cases "password = []") (auto simp: xor_cipher_def)

lemma stego_extract_raw:
  assumes "bits_to_bytes (recover img) = Inr raw"
  shows "stego_extract img pw =
    (if bytes_in stop_marker raw then
       (case xor_cipher (split_first raw stop_marker) pw of
          Inl e \<Rightarrow> Inl e
        | Inr b \<Rightarrow> (case utf8_decode b of Inr t \<Rightarrow> Inr t | Inl e \<Rightarrow> Inr msg_wrong_password))
     else Inr msg_not_found)"
  using assms utf8_decode_error
  by (auto simp: stego_extract_def cipher_if Let_def split: sum.splits error.splits)

lemma raw_of_embed:
  assumes "8 * length p \<le> width img * height img" and "length p \<le> max_bytes"
  shows "\<exists>r. bits_to_bytes (recover (embed img (bytes_to_bits p))) = Inr (p @ r)"
proof -
  let ?bits = "bytes_to_bits p"
  let ?rest = "map (\<lambda>i. blue_lsb (pixel_at img i)) [length ?bits..<min max_bits (width img * height img)]"
  have "length ?bits \<le> max_bits"
    using assms(2) by (simp add: bytes_to_bits_length max_bits_def)
  then have "recover (embed img ?bits) = ?bits @ ?rest"
    using assms(1) by (simp add: recover_embed bytes_to_bits_bits01 bytes_to_bits_length)
  moreover have "bits01 ?rest"
    using blue_lsb_bit by (simp add: bits01_def list_all_iff)
  ultimately show ?thesis
    using bits_to_bytes_append [of ?rest p] by simp
qed

lemma take_bytes_to_bits: "take (8 * n) (bytes_to_bits p) = bytes_to_bits (take n p)"
proof (induction p arbitrary: n)
  case Nil
  then show ?case by simp
next
  case (Cons b p)
  show ?case
  proof (cases n)
    case 0
    then show ?thesis by simp
  next
    case (Suc m)
    then show ?thesis
      using Cons.IH [of m] by (simp add: format_08b_length)
  qed
qed

lemma raw_of_embed_long:
  assumes "8 * length p \<le> width img * height img" and "max_bytes \<le> length p"
  shows "bits_to_bytes (recover (embed img (bytes_to_bits p))) = Inr (take max_bytes p)"
proof -
  let ?bits = "bytes_to_bits p"
  have "max_bits \<le> length ?bits"
    using assms(2) by (simp add: bytes_to_bits_length max_bits_def)
  then have "recover (embed img ?bits) = take max_bits ?bits"
    using assms(1) by (simp add: recover_embed bytes_to_bits_bits01 bytes_to_bits_length)
  also have "\<dots> = bytes_to_bits (take max_bytes p)"
    using take_bytes_to_bits [of max_bytes p] by (simp add: max_bits_def mult.commute)
  finally show ?thesis
    using bits_to_bytes_append_short [of "[]" "take max_bytes p"] by simp
qed

lemma split_first_found: "find_bytes raw sub = Some i \<Longrightarrow> split_first raw sub = take i raw"
  by (simp add: split_first_def)

lemma xor_cipher_inverse: "xor_cipher d k = Inr c \<Longrightarrow> xor_cipher c k = Inr d"
proof (cases "k = []")
  case True
  assume "xor_cipher d k = Inr c"
  with True show ?thesis by (simp add: xor_cipher_def)
next
  case False
  assume a: "xor_cipher d k = Inr c"
  with False obtain key where key: "utf8_encode k = Inr key"
    by (auto simp: xor_cipher_def split: sum.splits)
  from xor_cipher_twice [OF key, of d] a show ?thesis by auto
qed

lemma utf8_encode_ascii: "c < 0x80 \<Longrightarrow> utf8_encode (replicate n c) = Inr (replicate n (of_nat c))"
  by (induction n) (simp_all add: encode_cp_def)


lemma put_bit_red_green: "red (put_bit p v) = red p \<and> green (put_bit p v) = green p"
  by (cases p) (simp add: put_bit_def red_def green_def)

lemma keep_high: "((b AND NOT 1) OR 0) AND NOT 1 = b AND NOT (1 :: byte)"
  "((b AND NOT 1) OR 1) AND NOT 1 = b AND NOT (1 :: byte)"
  by (rule bit_eqI; auto simp: bit_simps)+

lemma put_bit_high:
  "v = 0 \<or> v = 1 \<Longrightarrow> blue (put_bit p v) AND NOT 1 = blue p AND NOT 1"
  using keep_high [of "blue p"] by (cases p) (auto simp: put_bit_def blue_def)

lemma byte_bits_subset: "b \<in> set x \<Longrightarrow> set (map int_of_digit (format_08b b)) \<subseteq> set (bytes_to_bits x)"
  by (induction x) auto


text \<open>Bits that are all 0 give bytes that are all 0, and the stop marker is not among them.\<close>

lemma zero_bits_no_marker:
  assumes "set bits \<subseteq> {0}" and "bits_to_bytes bits = Inr raw"
  shows "find_bytes raw stop_marker = None"
proof -
  have "bits01 bits"
    using assms(1) by (auto simp: bits01_def list_all_iff)
  from bits01_split [OF this] obtain x tail where
    x: "bits = bytes_to_bits x @ tail" "length tail < 8" by blast
  with assms(2) have raw: "raw = x"
    by (simp add: bits_to_bytes_append_short)
  have "0x24 \<notin> set x"
  proof
    assume "0x24 \<in> set x"
    from byte_bits_subset [OF this] have "set (map int_of_digit (format_08b 0x24)) \<subseteq> set bits"
      unfolding x(1) by auto
    moreover have "1 \<in> set (map int_of_digit (format_08b 0x24))"
      by (simp add: format_08b_def int_of_digit_def)
    ultimately have "1 \<in> set bits" by blast
    with assms(1) show False by auto
  qed
  then show ?thesis
    unfolding raw by (intro find_bytes_None) (simp_all add: stop_marker_def)
qed


lemma recover_red_image: "set (recover red_image) \<subseteq> {0}"
  by (auto simp: recover_eq blue_lsb_def pixel_at_def red_image_def blue_def)

lemma test_ciphered_not_utf8: "utf8_decode test_ciphered = Inl UnicodeDecodeError"
  by code_simp

section \<open>The claims\<close>

text \<open>
  Claim C1, as amended. Let the secret text \<open>s\<close> encode as UTF-8 to \<open>d\<close>, and let the cipher
  with key \<open>k\<close> turn \<open>d\<close> into \<open>c\<close> (so \<open>k\<close> is empty or encodes as UTF-8). If the framed
  payload fits the image, \<open>8 \<times> (len c + 6) \<le> W \<times> H\<close>, and fits what \<^verbatim>\<open>stego_extract\<close>
  reads, \<open>len c + 6 \<le> 4096\<close>, and the first occurrence of the stop marker in \<open>c\<close> followed
  by the stop marker is at position \<open>len c\<close>, and the output file is lossless, then
  \<^verbatim>\<open>stego_hide\<close> saves an image, and \<^verbatim>\<open>stego_extract\<close> on the file opened again, with the
  same key, returns \<open>s\<close>.
\<close>

theorem hide_extract:
  assumes "utf8_encode s = Inr d" and "xor_cipher d k = Inr c"
    and "8 * (length c + 6) \<le> width img * height img"
    and "length c + 6 \<le> max_bytes"
    and "find_bytes (c @ stop_marker) stop_marker = Some (length c)"
    and "lossless reopen output_path"
  shows "\<exists>hidden. stego_hide img s k = Inr hidden
           \<and> stego_extract (reopen output_path hidden) k = Inr s"
proof -
  let ?p = "c @ stop_marker"
  let ?hidden = "embed img (bytes_to_bits ?p)"
  have hide: "stego_hide img s k = Inr ?hidden"
    using assms(1-3) by (simp add: stego_hide_eq)
  have same: "reopen output_path ?hidden = ?hidden"
    using assms(6) by (simp add: lossless_def)
  have len: "length ?p = length c + 6"
    by (simp add: stop_marker_def)
  from raw_of_embed [of ?p img] assms(3,4) len obtain r where
    raw: "bits_to_bytes (recover ?hidden) = Inr (?p @ r)" by auto
  have found: "find_bytes (?p @ r) stop_marker = Some (length c)"
    using assms(5) by (rule find_bytes_append)
  then have "split_first (?p @ r) stop_marker = c"
    by (simp add: split_first_def)
  moreover have "bytes_in stop_marker (?p @ r)"
    using found by (simp add: bytes_in_def)
  ultimately have "stego_extract ?hidden k = Inr s"
    using xor_cipher_inverse [OF assms(2)] utf8_decode_encode [OF assms(1)]
    by (simp add: stego_extract_raw [OF raw])
  with hide same show ?thesis by auto
qed

theorem hide_extract_witness:
  "utf8_encode test_secret = Inr test_bytes \<and> xor_cipher test_bytes test_password = Inr test_ciphered
   \<and> 8 * (length test_ciphered + 6) \<le> width red_image * height red_image
   \<and> length test_ciphered + 6 \<le> max_bytes
   \<and> find_bytes (test_ciphered @ stop_marker) stop_marker = Some (length test_ciphered)
   \<and> lossless png_round_trip ''test_result.png''
   \<and> (\<exists>hidden. stego_hide red_image test_secret test_password = Inr hidden
         \<and> stego_extract (png_round_trip ''test_result.png'' hidden) test_password
             = Inr test_secret)"
proof -
  have h1: "utf8_encode test_secret = Inr test_bytes"
    by (simp add: test_secret_def encode_cp_def test_bytes_def)
  have h2: "xor_cipher test_bytes test_password = Inr test_ciphered"
    by code_simp
  have h3: "8 * (length test_ciphered + 6) \<le> width red_image * height red_image"
    by (simp add: test_ciphered_def red_image_def)
  have h4: "length test_ciphered + 6 \<le> max_bytes"
    by (simp add: test_ciphered_def max_bytes_def)
  have h5: "find_bytes (test_ciphered @ stop_marker) stop_marker = Some (length test_ciphered)"
    by code_simp
  have h6: "lossless png_round_trip ''test_result.png''"
    by (simp add: lossless_def png_round_trip_def)
  show ?thesis
    using h1 h2 h3 h4 h5 h6 hide_extract [OF h1 h2 h3 h4 h5 h6] by simp
qed

text \<open>
  The claim as stated fails in two ways. The text \<^verbatim>\<open>$STOP$\<close> fits the 100 by 100 image and
  is hidden without a key; what is extracted is the empty text, since the first stop
  marker found is the payload itself. The text of 4091 letters fits the 200 by 200 image
  (32776 bits of 40000); its stop marker ends at byte 4097, beyond the 4096 bytes read,
  and the answer is that no hidden data was found. Both are of the grid as it was saved,
  which is what a lossless output file gives back.
\<close>

theorem hide_extract_counterexample:
  "stego_hide red_image stop_text [] = Inr (embed red_image (bytes_to_bits (stop_marker @ stop_marker)))
   \<and> stego_extract (embed red_image (bytes_to_bits (stop_marker @ stop_marker))) [] = Inr []
   \<and> stego_extract (embed red_image (bytes_to_bits (stop_marker @ stop_marker))) [] \<noteq> Inr stop_text
   \<and> stego_hide large_image long_text []
        = Inr (embed large_image (bytes_to_bits (replicate 4091 0x41 @ stop_marker)))
   \<and> stego_extract (embed large_image (bytes_to_bits (replicate 4091 0x41 @ stop_marker))) []
        = Inr msg_not_found
   \<and> stego_extract (embed large_image (bytes_to_bits (replicate 4091 0x41 @ stop_marker))) []
        \<noteq> Inr long_text"
proof -
  let ?p = "stop_marker @ stop_marker"
  have enc: "utf8_encode stop_text = Inr stop_marker"
    by (simp add: stop_text_def stop_marker_def encode_cp_def)
  have a: "stego_hide red_image stop_text [] = Inr (embed red_image (bytes_to_bits ?p))"
    by (simp add: stego_hide_eq [OF enc, where k = "[]" and c = stop_marker] xor_cipher_def)
       (simp add: stop_marker_def red_image_def)
  have "8 * length ?p \<le> width red_image * height red_image" "length ?p \<le> max_bytes"
    by (simp_all add: stop_marker_def red_image_def max_bytes_def)
  from raw_of_embed [OF this] obtain r where
    raw: "bits_to_bytes (recover (embed red_image (bytes_to_bits ?p))) = Inr (?p @ r)" by blast
  have "find_bytes (?p @ r) stop_marker = Some 0"
    by (simp add: stop_marker_def)
  then have b: "stego_extract (embed red_image (bytes_to_bits ?p)) [] = Inr []"
    by (simp add: stego_extract_raw [OF raw] bytes_in_def split_first_def xor_cipher_def)
  let ?q = "replicate 4091 0x41 @ stop_marker"
  have enc2: "utf8_encode long_text = Inr (replicate 4091 0x41)"
    using utf8_encode_ascii [where c = "0x41" and n = 4091] by (simp add: long_text_def)
  have c: "stego_hide large_image long_text [] = Inr (embed large_image (bytes_to_bits ?q))"
    by (simp add: stego_hide_eq [OF enc2, where k = "[]" and c = "replicate 4091 0x41"] xor_cipher_def)
       (simp add: large_image_def)
  have "8 * length ?q \<le> width large_image * height large_image" "max_bytes \<le> length ?q"
    by (simp_all add: stop_marker_def large_image_def max_bytes_def)
  from raw_of_embed_long [OF this]
  have raw2: "bits_to_bytes (recover (embed large_image (bytes_to_bits ?q)))
      = Inr (replicate 4091 0x41 @ [0x24, 0x53, 0x54, 0x4F, 0x50])"
    by (simp add: max_bytes_def stop_marker_def)
  have "find_bytes (replicate 4091 0x41 @ [0x24, 0x53, 0x54, 0x4F, 0x50]) stop_marker = None"
    by (subst find_bytes_replicate) (simp_all add: stop_marker_def)
  then have d: "stego_extract (embed large_image (bytes_to_bits ?q)) [] = Inr msg_not_found"
    by (simp add: stego_extract_raw [OF raw2] bytes_in_def)
  have e: "Inr [] \<noteq> (Inr stop_text :: error + pystr)"
    by (simp add: stop_text_def)
  have "length msg_not_found \<noteq> length long_text"
    by (simp add: msg_not_found_def long_text_def)
  then have f: "Inr msg_not_found \<noteq> (Inr long_text :: error + pystr)"
    by auto
  from a b c d e f show ?thesis by simp
qed

text \<open>
  Claim C2. Let the secret text encode to \<open>d\<close> and the cipher turn \<open>d\<close> into \<open>c\<close>. When the
  framed bit length \<open>8 \<times> (len c + 6)\<close> is at most \<open>W \<times> H\<close>, in particular when it is equal,
  \<^verbatim>\<open>stego_hide\<close> saves the image with the bits embedded. When it is larger, by one bit or
  more, \<^verbatim>\<open>stego_hide\<close> raises \<^verbatim>\<open>ValueError\<close> with the pixel buffer as it was loaded, and saves
  nothing.
\<close>

theorem capacity_boundary:
  assumes "utf8_encode s = Inr d" and "xor_cipher d k = Inr c"
  shows "(8 * (length c + 6) \<le> width img * height img \<longrightarrow>
            stego_hide img s k = Inr (embed img (bytes_to_bits (c @ stop_marker))))
       \<and> (8 * (length c + 6) > width img * height img \<longrightarrow>
            stego_hide img s k = Inl (ValueError, Some img))"
  using assms by (simp add: stego_hide_eq)

theorem capacity_boundary_witness:
  "utf8_encode [0x41] = Inr [0x41] \<and> xor_cipher [0x41] [] = Inr [0x41]
   \<and> 8 * (length [0x41 :: byte] + 6) = width small_image * height small_image
   \<and> stego_hide small_image [0x41] [] = Inr (embed small_image (bytes_to_bits ([0x41] @ stop_marker)))
   \<and> utf8_encode [0x41, 0x42] = Inr [0x41, 0x42] \<and> xor_cipher [0x41, 0x42] [] = Inr [0x41, 0x42]
   \<and> 8 * (length [0x41, 0x42 :: byte] + 6) > width small_image * height small_image
   \<and> stego_hide small_image [0x41, 0x42] [] = Inl (ValueError, Some small_image)"
proof -
  have e1: "utf8_encode [0x41] = Inr [0x41]" and e2: "utf8_encode [0x41, 0x42] = Inr [0x41, 0x42]"
    by (simp_all add: encode_cp_def)
  have c1: "xor_cipher [0x41] [] = Inr [0x41]" and c2: "xor_cipher [0x41, 0x42] [] = Inr [0x41, 0x42]"
    by (simp_all add: xor_cipher_def)
  have s1: "8 * (length [0x41 :: byte] + 6) = width small_image * height small_image"
    and s2: "8 * (length [0x41, 0x42 :: byte] + 6) > width small_image * height small_image"
    by (simp_all add: small_image_def)
  show ?thesis
    using e1 e2 c1 c2 s1 s2 capacity_boundary [OF e1 c1, of small_image]
      capacity_boundary [OF e2 c2, of small_image]
    by simp
qed

text \<open>
  Claim C4, as amended. For every byte sequence \<open>x\<close> and every key \<open>k\<close> that encodes as
  UTF-8, the cipher applied twice with \<open>k\<close> returns \<open>x\<close>; with the empty key it returns \<open>x\<close>
  unchanged.
\<close>

theorem cipher_involution:
  assumes "utf8_encode k = Inr key"
  shows "(\<exists>y. xor_cipher x k = Inr y \<and> xor_cipher y k = Inr x) \<and> xor_cipher x [] = Inr x"
  using xor_cipher_twice [OF assms, of x] by (auto simp: xor_cipher_def)

theorem cipher_involution_witness:
  "utf8_encode test_password = Inr [0x31, 0x32, 0x33]
   \<and> (\<exists>y. xor_cipher test_bytes test_password = Inr y \<and> xor_cipher y test_password = Inr test_bytes)
   \<and> xor_cipher test_bytes [] = Inr test_bytes"
proof -
  have h: "utf8_encode test_password = Inr [0x31, 0x32, 0x33]"
    by (simp add: test_password_def encode_cp_def)
  show ?thesis
    using h cipher_involution [OF h, of test_bytes] by simp
qed

text \<open>
  The claim as stated fails for a key that has no UTF-8 form: on the string of the one
  lone surrogate \<open>U+DC80\<close>, \<^verbatim>\<open>password.encode('utf-8')\<close> raises and the cipher returns
  nothing.
\<close>

theorem cipher_involution_counterexample:
  "xor_cipher [0x41] [0xDC80] = Inl UnicodeEncodeError"
  by (simp add: xor_cipher_def encode_cp_def)

text \<open>
  Claim C5, as amended. For every image the bytes are recovered without a raise, and for
  every password: when the stop marker is not in the recovered bytes, \<^verbatim>\<open>stego_extract\<close>
  returns the message that nothing was found, whatever the password; when the stop marker
  is there and the password encodes as UTF-8 (the empty one too), it returns the
  deciphered prefix decoded as UTF-8, or the message of a wrong password when that does
  not decode. It raises in one case only: the stop marker is there and the password has
  no UTF-8 form; then \<^verbatim>\<open>UnicodeEncodeError\<close> leaves the function.
\<close>

theorem extract_total:
  "\<exists>raw. bits_to_bytes (recover img) = Inr raw
     \<and> (\<not> bytes_in stop_marker raw \<longrightarrow> stego_extract img password = Inr msg_not_found)
     \<and> (bytes_in stop_marker raw \<longrightarrow>
          (case utf8_encode password of
             Inr key \<Rightarrow>
               (\<exists>b r. xor_cipher (split_first raw stop_marker) password = Inr b
                  \<and> stego_extract img password = Inr r
                  \<and> (case utf8_decode b of Inr t \<Rightarrow> r = t | Inl e \<Rightarrow> r = msg_wrong_password))
           | Inl e \<Rightarrow> stego_extract img password = Inl UnicodeEncodeError))"
proof -
  from bits_to_bytes_total [OF recover_bits01, of img] obtain raw where
    raw: "bits_to_bytes (recover img) = Inr raw" by blast
  have nf: "\<not> bytes_in stop_marker raw \<Longrightarrow> stego_extract img password = Inr msg_not_found"
    by (simp add: stego_extract_raw [OF raw])
  have found: "case utf8_encode password of
             Inr key \<Rightarrow>
               (\<exists>b r. xor_cipher (split_first raw stop_marker) password = Inr b
                  \<and> stego_extract img password = Inr r
                  \<and> (case utf8_decode b of Inr t \<Rightarrow> r = t | Inl e \<Rightarrow> r = msg_wrong_password))
           | Inl e \<Rightarrow> stego_extract img password = Inl UnicodeEncodeError"
    if f: "bytes_in stop_marker raw"
  proof (cases "utf8_encode password")
    case (Inl e)
    then show ?thesis
      using f by (simp add: stego_extract_raw [OF raw] xor_cipher_Inl)
  next
    case (Inr key)
    from xor_cipher_twice [OF Inr, of "split_first raw stop_marker"] obtain b where
      b: "xor_cipher (split_first raw stop_marker) password = Inr b" by blast
    show ?thesis
      using f b Inr by (auto simp: stego_extract_raw [OF raw] split: sum.splits)
  qed
  from raw nf found show ?thesis by blast
qed

theorem extract_total_witness:
  "stego_extract red_image [0xDC80] = Inr msg_not_found
   \<and> stego_extract (embed red_image (bytes_to_bits (test_ciphered @ stop_marker))) []
       = Inr msg_wrong_password
   \<and> stego_extract (embed red_image (bytes_to_bits (test_ciphered @ stop_marker))) [0xDC80]
       = Inl UnicodeEncodeError"
proof -
  from extract_total [of red_image "[0xDC80]"] obtain raw where
    r: "bits_to_bytes (recover red_image) = Inr raw"
      "\<not> bytes_in stop_marker raw \<longrightarrow> stego_extract red_image [0xDC80] = Inr msg_not_found"
    by blast
  have "\<not> bytes_in stop_marker raw"
    using zero_bits_no_marker [OF recover_red_image r(1)] by (simp add: bytes_in_def)
  with r have a: "stego_extract red_image [0xDC80] = Inr msg_not_found"
    by simp
  let ?p = "test_ciphered @ stop_marker"
  let ?hidden = "embed red_image (bytes_to_bits ?p)"
  have "8 * length ?p \<le> width red_image * height red_image" "length ?p \<le> max_bytes"
    by (simp_all add: test_ciphered_def stop_marker_def red_image_def max_bytes_def)
  from raw_of_embed [OF this] obtain rest where
    raw0: "bits_to_bytes (recover ?hidden) = Inr (?p @ rest)" by blast
  have "find_bytes (test_ciphered @ stop_marker) stop_marker = Some (length test_ciphered)"
    by code_simp
  then have f: "find_bytes (?p @ rest) stop_marker = Some (length test_ciphered)"
    by (rule find_bytes_append)
  then have in_raw: "bytes_in stop_marker (?p @ rest)"
    and split: "split_first (?p @ rest) stop_marker = test_ciphered"
    by (simp_all add: bytes_in_def split_first_def)
  from extract_total [of ?hidden "[]"] raw0 in_raw obtain b r' where
    r': "xor_cipher (split_first (?p @ rest) stop_marker) [] = Inr b"
      "stego_extract ?hidden [] = Inr r'"
      "case utf8_decode b of Inr t \<Rightarrow> r' = t | Inl e \<Rightarrow> r' = msg_wrong_password"
    by auto
  from r'(1) split have "b = test_ciphered"
    by (simp add: xor_cipher_def)
  with r'(3) have "r' = msg_wrong_password"
    by (simp add: test_ciphered_not_utf8)
  with r'(2) have b: "stego_extract ?hidden [] = Inr msg_wrong_password"
    by simp
  have "utf8_encode [0xDC80] = Inl UnicodeEncodeError"
    by (simp add: encode_cp_def)
  with extract_total [of ?hidden "[0xDC80]"] raw0 in_raw
  have c: "stego_extract ?hidden [0xDC80] = Inl UnicodeEncodeError"
    by auto
  from a b c show ?thesis by simp
qed

text \<open>
  The claim as stated fails for a password that has no UTF-8 form: the empty text is
  hidden without a key in the 100 by 100 image, and extracting with the lone surrogate
  \<open>U+DC80\<close> as password raises \<^verbatim>\<open>UnicodeEncodeError\<close>.
\<close>

theorem extract_total_counterexample:
  "stego_hide red_image [] [] = Inr (embed red_image (bytes_to_bits stop_marker))
   \<and> stego_extract (embed red_image (bytes_to_bits stop_marker)) [0xDC80] = Inl UnicodeEncodeError"
proof -
  have enc: "utf8_encode [] = Inr []" by simp
  have a: "stego_hide red_image [] [] = Inr (embed red_image (bytes_to_bits stop_marker))"
    using stego_hide_eq [OF enc, where k = "[]" and c = "[]" and img = red_image]
    by (simp add: xor_cipher_def red_image_def)
  have "8 * length stop_marker \<le> width red_image * height red_image" "length stop_marker \<le> max_bytes"
    by (simp_all add: stop_marker_def red_image_def max_bytes_def)
  from raw_of_embed [OF this] obtain r where
    raw: "bits_to_bytes (recover (embed red_image (bytes_to_bits stop_marker))) = Inr (stop_marker @ r)"
    by blast
  have "find_bytes (stop_marker @ r) stop_marker = Some 0"
    by (simp add: stop_marker_def)
  then have "stego_extract (embed red_image (bytes_to_bits stop_marker)) [0xDC80] = Inl UnicodeEncodeError"
    by (simp add: stego_extract_raw [OF raw] bytes_in_def xor_cipher_def encode_cp_def)
  with a show ?thesis by simp
qed

text \<open>
  Claim C6. For every image and every list of bits no longer than \<open>W \<times> H\<close>, after the
  embedding loop the blue channel of the pixel at row-major index \<open>i\<close> has bit \<open>i\<close> as its
  lowest bit and its other bits as before, for every \<open>i\<close> below the number of bits; the
  red and green channels of every pixel are as before; every pixel at an index from the
  number of bits on is as before; and so are the width and the height.
\<close>

theorem embed_frame:
  assumes "bits01 bits" and "length bits \<le> width img * height img"
  shows "(\<forall>i < length bits. blue_lsb (pixel_at (embed img bits) i) = bits ! i
            \<and> blue (pixel_at (embed img bits) i) AND NOT 1 = blue (pixel_at img i) AND NOT 1)
       \<and> (\<forall>x y. red (pixels (embed img bits) (x, y)) = red (pixels img (x, y))
              \<and> green (pixels (embed img bits) (x, y)) = green (pixels img (x, y)))
       \<and> (\<forall>i \<ge> length bits. pixel_at (embed img bits) i = pixel_at img i)
       \<and> width (embed img bits) = width img \<and> height (embed img bits) = height img"
proof (intro conjI allI impI)
  fix i assume i: "i < length bits"
  with assms show "blue_lsb (pixel_at (embed img bits) i) = bits ! i"
    using bits01_nth [OF assms(1) i] by (simp add: embed_pixel_at blue_lsb_put_bit)
  from i assms show "blue (pixel_at (embed img bits) i) AND NOT 1 = blue (pixel_at img i) AND NOT 1"
    using bits01_nth [OF assms(1) i] by (simp only: embed_pixel_at if_True put_bit_high)
next
  fix x y
  show "red (pixels (embed img bits) (x, y)) = red (pixels img (x, y))"
    by (simp add: embed_pixels put_bit_red_green)
  show "green (pixels (embed img bits) (x, y)) = green (pixels img (x, y))"
    by (simp add: embed_pixels put_bit_red_green)
next
  fix i assume "length bits \<le> i"
  with assms(2) show "pixel_at (embed img bits) i = pixel_at img i"
    by (simp add: embed_pixel_at)
qed (simp_all add: embed_size)

theorem embed_frame_witness:
  "bits01 (bytes_to_bits stop_marker) \<and> length (bytes_to_bits stop_marker) \<le> width red_image * height red_image
   \<and> (0::nat) < length (bytes_to_bits stop_marker)
   \<and> blue_lsb (pixel_at (embed red_image (bytes_to_bits stop_marker)) 0) = bytes_to_bits stop_marker ! 0
   \<and> red (pixels (embed red_image (bytes_to_bits stop_marker)) (0, 0)) = red (pixels red_image (0, 0))
   \<and> length (bytes_to_bits stop_marker) \<le> (48::nat)
   \<and> pixel_at (embed red_image (bytes_to_bits stop_marker)) 48 = pixel_at red_image 48"
proof -
  have l: "length (bytes_to_bits stop_marker) = 48"
    by (simp add: bytes_to_bits_length stop_marker_length)
  have h: "bits01 (bytes_to_bits stop_marker)"
    "length (bytes_to_bits stop_marker) \<le> width red_image * height red_image"
    by (simp_all add: bytes_to_bits_bits01 l red_image_def)
  show ?thesis
    using h l embed_frame [OF h] by simp
qed

text \<open>
  Claim C7. \<^verbatim>\<open>stego_extract\<close> reads \<open>min (4096 \<times> 8) (W \<times> H)\<close> bits, and the bit at position
  \<open>i\<close> is the lowest bit of the blue channel of the pixel at row-major index \<open>i\<close>.
\<close>

theorem recover_bounded:
  "length (recover img) = min (4096 * 8) (width img * height img)
   \<and> (\<forall>i < length (recover img). recover img ! i = blue_lsb (pixel_at img i))"
  by (simp add: recover_eq max_bits_def max_bytes_def)

theorem recover_bounded_witness:
  "length (recover red_image) = 10000 \<and> (0::nat) < length (recover red_image)
    \<and> recover red_image ! 0 = blue_lsb (pixel_at red_image 0)"
  using recover_bounded [of red_image] by (simp add: red_image_def)



text \<open>
  Claim C10, as amended. For every byte sequence and every password that encodes as UTF-8
  (the empty one too), the cipher returns a byte sequence of the same length.
\<close>

theorem cipher_length:
  assumes "utf8_encode password = Inr key"
  shows "\<exists>r. xor_cipher data password = Inr r \<and> length r = length data"
  using xor_cipher_twice [OF assms, of data] by auto

theorem cipher_length_witness:
  "utf8_encode test_password = Inr [0x31, 0x32, 0x33]
   \<and> (\<exists>r. xor_cipher test_bytes test_password = Inr r \<and> length r = length test_bytes)"
proof -
  have h: "utf8_encode test_password = Inr [0x31, 0x32, 0x33]"
    by (simp add: test_password_def encode_cp_def)
  show ?thesis
    using h cipher_length [OF h, of test_bytes] by simp
qed

text \<open>
  The claim as stated fails for a password that has no UTF-8 form: with the lone surrogate
  \<open>U+D800\<close> in the password the cipher raises and has no length.
\<close>

theorem cipher_length_counterexample:
  "xor_cipher [0x53, 0x54] [0x70, 0xD800] = Inl UnicodeEncodeError"
  by (simp add: xor_cipher_def encode_cp_def)

end
